theory Spec2Isabelle
  imports Main
begin

section \<open>LSB steganography codec (challenges/01\_steganography/steganography.py)\<close>

text \<open>
  A shallow embedding of the class \<^verbatim>\<open>ImageSteganography\<close>. Python integers are
  unbounded, so channel values are \<^typ>\<open>int\<close>; \<^verbatim>\<open>%\<close> with the positive divisor 2 is
  \<open>mod\<close> on \<^typ>\<open>int\<close> (both round towards minus infinity). A Python \<^verbatim>\<open>str\<close> is a
  sequence of code points, so a text is a list of natural numbers (what \<^verbatim>\<open>ord\<close> returns
  for each character); the binary strings the codec builds consist of the ASCII digits
  and are HOL strings.
\<close>

subsection \<open>Data\<close>

type_synonym pixel = "int list"
  \<comment> \<open>a tuple of channel values, as \<^verbatim>\<open>getdata()\<close> delivers it\<close>

type_synonym str = "nat list"
  \<comment> \<open>a Python \<^verbatim>\<open>str\<close>, character by character as code points\<close>

text \<open>
  The module raises one exception class, \<^verbatim>\<open>SteganographyError\<close>, told apart by its
  message. An \<^verbatim>\<open>IndexError\<close> raised by a subscript or by \<^verbatim>\<open>putpixel\<close>, and a
  \<^verbatim>\<open>TypeError\<close> raised by \<^verbatim>\<open>putpixel\<close>, are caught nowhere in the class and leave the
  method as they are.
\<close>

datatype message =
    CannotEncodeEmptyText        \<comment> \<open>"Cannot encode empty text"\<close>
  | ImageTooSmall                \<comment> \<open>"Image too small! Has .. pixels, needs .."\<close>
  | ImageTooSmallToEncode        \<comment> \<open>"Image too small to encode .. characters."\<close>
  | UnexpectedEndOfImageData     \<comment> \<open>"Unexpected end of image data - .."\<close>
  | InvalidEncodedData           \<comment> \<open>"Invalid encoded data: .."\<close>

datatype error = SteganographyError message | IndexError | TypeError

subsection \<open>Single values\<close>

definition BITS_PER_CHAR :: nat where
  "BITS_PER_CHAR = 8"

definition make_even :: "int \<Rightarrow> int" where
  "make_even v = (if v mod 2 \<noteq> 0 then v - 1 else v)"

definition make_odd :: "int \<Rightarrow> int" where
  "make_odd v = (if v mod 2 = 0 then (if v < 255 then v + 1 else v - 1) else v)"

definition encode_bit_in_value :: "int \<Rightarrow> char \<Rightarrow> int" where
  "encode_bit_in_value v b = (if b = CHR ''0'' then make_even v else make_odd v)"

definition extract_bit_from_value :: "int \<Rightarrow> char" where
  "extract_bit_from_value v = (if v mod 2 \<noteq> 0 then CHR ''1'' else CHR ''0'')"

subsection \<open>Binary strings\<close>

text \<open>
  \<^verbatim>\<open>format(n, "08b")\<close> writes \<open>n\<close> in base 2, most significant digit first, and pads
  with zeros on the left up to a width of 8. The width is a minimum: a number of more
  than 8 binary digits keeps all of them.
\<close>

definition digit_char :: "nat \<Rightarrow> char" where
  "digit_char d = (if d = 0 then CHR ''0'' else CHR ''1'')"

fun bin_digits :: "nat \<Rightarrow> string" where
  "bin_digits n =
     (if n < 2 then [digit_char n] else bin_digits (n div 2) @ [digit_char (n mod 2)])"

declare bin_digits.simps [simp del]

definition format_08b :: "nat \<Rightarrow> string" where
  "format_08b n = replicate (8 - length (bin_digits n)) (CHR ''0'') @ bin_digits n"

definition text_to_binary :: "str \<Rightarrow> string list" where
  "text_to_binary text = map format_08b text"

text \<open>
  \<^verbatim>\<open>int(s, 2)\<close> raises \<^verbatim>\<open>ValueError\<close> (here \<open>None\<close>) on the empty string and on a
  string with a character that is no binary digit. Python accepts a few further
  spellings (a sign, a \<^verbatim>\<open>0b\<close> prefix, underscores, surrounding blanks); the model refuses
  them, so it fails wherever Python does. \<^verbatim>\<open>chr(i)\<close> raises \<^verbatim>\<open>ValueError\<close> unless
  \<open>i\<close> is below \<^verbatim>\<open>0x110000\<close>.
\<close>

fun int_base2_digits :: "string \<Rightarrow> nat \<Rightarrow> nat option" where
  "int_base2_digits [] acc = Some acc"
| "int_base2_digits (c # cs) acc =
     (if c = CHR ''0'' then int_base2_digits cs (2 * acc)
      else if c = CHR ''1'' then int_base2_digits cs (2 * acc + 1)
      else None)"

definition int_base2 :: "string \<Rightarrow> nat option" where
  "int_base2 s = (if s = [] then None else int_base2_digits s 0)"

definition chr :: "nat \<Rightarrow> nat option" where
  "chr i = (if i < 1114112 then Some i else None)"

subsection \<open>The generator \<^verbatim>\<open>modify_pixels_for_encoding\<close>\<close>

text \<open>
  The inner loop over \<^verbatim>\<open>range(self.BITS_PER_CHAR)\<close>. A subscript out of range raises
  \<^verbatim>\<open>IndexError\<close>, both on the binary string and on the list of colour values (a pixel
  of fewer than 3 channels makes the list shorter than 9).
\<close>

fun encode_bits :: "nat list \<Rightarrow> string \<Rightarrow> int list \<Rightarrow> error + int list" where
  "encode_bits [] binary_char color_values = Inr color_values"
| "encode_bits (bit_index # rest) binary_char color_values =
     (if bit_index < length binary_char \<and> bit_index < length color_values
      then encode_bits rest binary_char
             (color_values[bit_index :=
                encode_bit_in_value (color_values ! bit_index) (binary_char ! bit_index)])
      else Inl IndexError)"

definition set_termination_flag :: "bool \<Rightarrow> int list \<Rightarrow> error + int list" where
  "set_termination_flag is_last_char color_values =
     (if 8 < length color_values
      then Inr (color_values[8 :=
                  (if is_last_char then make_odd (color_values ! 8)
                   else make_even (color_values ! 8))])
      else Inl IndexError)"

text \<open>
  One pass of the outer loop once the three pixels are there: the three pixels it
  yields (the slices \<^verbatim>\<open>[0:3]\<close>, \<^verbatim>\<open>[3:6]\<close>, \<^verbatim>\<open>[6:9]\<close>), or the exception.
\<close>

definition encode_group ::
  "bool \<Rightarrow> string \<Rightarrow> pixel \<Rightarrow> pixel \<Rightarrow> pixel \<Rightarrow> error + pixel list" where
  "encode_group is_last_char binary_char pixel1 pixel2 pixel3 =
     (case encode_bits [0..<BITS_PER_CHAR] binary_char
             (take 3 pixel1 @ take 3 pixel2 @ take 3 pixel3) of
        Inl e \<Rightarrow> Inl e
      | Inr color_values \<Rightarrow>
          (case set_termination_flag is_last_char color_values of
             Inl e \<Rightarrow> Inl e
           | Inr cv \<Rightarrow> Inr [take 3 cv, drop 3 (take 6 cv), drop 6 (take 9 cv)]))"

text \<open>
  The generator, as the pixels it yields in order and how it ends: \<open>None\<close> when the
  loop over the characters is through, \<open>Some e\<close> when it raises \<open>e\<close> after the pixels
  yielded so far. \<^verbatim>\<open>StopIteration\<close> from any of the three \<^verbatim>\<open>next\<close> calls becomes the
  \<^verbatim>\<open>SteganographyError\<close> of the \<^verbatim>\<open>except\<close> clause.
\<close>

fun modify_pixels_loop ::
  "nat \<Rightarrow> nat \<Rightarrow> string list \<Rightarrow> pixel list \<Rightarrow> pixel list \<times> error option" where
  "modify_pixels_loop char_index num_chars [] pixel_iterator = ([], None)"
| "modify_pixels_loop char_index num_chars (binary_char # rest)
     (pixel1 # pixel2 # pixel3 # pixel_iterator) =
     (case encode_group (int char_index = int num_chars - 1) binary_char
             pixel1 pixel2 pixel3 of
        Inl e \<Rightarrow> ([], Some e)
      | Inr yielded \<Rightarrow>
          (let (later, raised) =
                 modify_pixels_loop (char_index + 1) num_chars rest pixel_iterator
           in (yielded @ later, raised)))"
| "modify_pixels_loop char_index num_chars (binary_char # rest) pixel_iterator =
     ([], Some (SteganographyError ImageTooSmallToEncode))"

definition modify_pixels_for_encoding :: "pixel list \<Rightarrow> str \<Rightarrow> pixel list \<times> error option" where
  "modify_pixels_for_encoding pixels text =
     (let binary_chars = text_to_binary text
      in modify_pixels_loop 0 (length binary_chars) binary_chars pixels)"

subsection \<open>Images\<close>

text \<open>
  Of a PIL image the class uses \<^verbatim>\<open>size\<close> (width and height), \<^verbatim>\<open>getdata()\<close> (the pixels
  row by row, each a tuple of as many values as the image has bands), \<^verbatim>\<open>copy()\<close> and
  \<^verbatim>\<open>putpixel((x, y), pixel)\<close>. Image objects are mutable and \<^verbatim>\<open>encode\<close> works on a copy,
  so the objects live in a heap: a list of images, an object's reference being its
  position.
\<close>

record image =
  width :: nat
  height :: nat
  data :: "pixel list"

type_synonym ref = nat
type_synonym heap = "image list"

definition image_copy :: "heap \<Rightarrow> ref \<Rightarrow> ref \<times> heap" where
  "image_copy h r = (length h, h @ [h ! r])"

text \<open>
  \<^verbatim>\<open>putpixel\<close> is the library's, not the repository's. As Pillow documents and
  implements it: outside the image it raises \<^verbatim>\<open>IndexError\<close>; on an image of 3 or 4 bands
  it takes a tuple of 3 or 4 values and the image keeps its bands, a fourth value that
  is not given being 255 and one the image has no band for being dropped (\<open>getink\<close>);
  for an image of fewer bands or a tuple of another length it raises \<^verbatim>\<open>TypeError\<close>. The
  bands of the image are counted on the pixel at the position. Pillow also clamps each
  value to the range from 0 to 255; the values of an image are in that range and
  \<open>make_even\<close> and \<open>make_odd\<close> keep them there, so the clamp changes nothing and is left
  out.
\<close>

definition getink :: "nat \<Rightarrow> pixel \<Rightarrow> pixel" where
  "getink bands color = take bands (color @ replicate (bands - length color) 255)"

definition putpixel :: "heap \<Rightarrow> ref \<Rightarrow> nat \<times> nat \<Rightarrow> pixel \<Rightarrow> error + heap" where
  "putpixel h r xy p =
     (let img = h ! r; x = fst xy; y = snd xy
      in if x < width img \<and> y < height img
         then (let i = y * width img + x; bands = length (data img ! i)
               in if 3 \<le> bands \<and> (length p = 3 \<or> length p = 4)
                  then Inr (h[r := img\<lparr>data := (data img)[i := getink bands p]\<rparr>])
                  else Inl TypeError)
         else Inl IndexError)"

definition validate_image_capacity :: "image \<Rightarrow> str \<Rightarrow> error + unit" where
  "validate_image_capacity img text =
     (let total_pixels = width img * height img;
          pixels_needed = length text * 3
      in if total_pixels < pixels_needed then Inl (SteganographyError ImageTooSmall)
         else Inr ())"

subsection \<open>\<^verbatim>\<open>encode\<close>\<close>

text \<open>
  The loop \<^verbatim>\<open>for pixel in modified_pixels\<close> with its cursor \<open>(x, y)\<close>. It ends with
  \<open>None\<close>, or with the exception of a \<^verbatim>\<open>putpixel\<close>, and returns the heap as the writes
  left it.
\<close>

fun put_pixels ::
  "ref \<Rightarrow> nat \<Rightarrow> nat \<Rightarrow> nat \<Rightarrow> pixel list \<Rightarrow> heap \<Rightarrow> error option \<times> heap" where
  "put_pixels encoded_image w x y [] h = (None, h)"
| "put_pixels encoded_image w x y (pixel # rest) h =
     (case putpixel h encoded_image (x, y) pixel of
        Inl e \<Rightarrow> (Some e, h)
      | Inr h' \<Rightarrow>
          (if x + 1 \<ge> w then put_pixels encoded_image w 0 (y + 1) rest h'
           else put_pixels encoded_image w (x + 1) y rest h'))"

text \<open>
  \<^verbatim>\<open>encode\<close> from the opened image (the object \<open>image'\<close> of the heap) to the image it
  is about to save: the reference of the encoded copy, or the exception, and the heap
  at that moment. Opening and saving the files are left out. The generator runs
  interleaved with the writes; it reads the list \<open>pixels\<close>, which no write touches, so
  its pixels are those of \<open>modify_pixels_for_encoding\<close>, written one by one until a
  \<^verbatim>\<open>putpixel\<close> fails or the generator ends or raises.
\<close>

definition encode :: "heap \<Rightarrow> ref \<Rightarrow> str \<Rightarrow> (error + ref) \<times> heap" where
  "encode h image' text =
     (if text = [] then (Inl (SteganographyError CannotEncodeEmptyText), h)
      else
        (case validate_image_capacity (h ! image') text of
           Inl e \<Rightarrow> (Inl e, h)
         | Inr _ \<Rightarrow>
             (let (encoded_image, h1) = image_copy h image';
                  pixels = data (h1 ! encoded_image);
                  (modified_pixels, raised) = modify_pixels_for_encoding pixels text;
                  (failed, h2) =
                    put_pixels encoded_image (width (h1 ! encoded_image)) 0 0
                      modified_pixels h1
              in (case failed of
                    Some e \<Rightarrow> (Inl e, h2)
                  | None \<Rightarrow>
                      (case raised of
                         Some e \<Rightarrow> (Inl e, h2)
                       | None \<Rightarrow> (Inr encoded_image, h2))))))"

subsection \<open>\<^verbatim>\<open>decode\<close>\<close>

text \<open>
  The list comprehension over \<^verbatim>\<open>range(self.BITS_PER_CHAR)\<close> joined into a string.
\<close>

definition binary_string_of :: "int list \<Rightarrow> error + string" where
  "binary_string_of color_values =
     (if BITS_PER_CHAR \<le> length color_values
      then Inr (map (\<lambda>i. extract_bit_from_value (color_values ! i)) [0..<BITS_PER_CHAR])
      else Inl IndexError)"

text \<open>
  The \<^verbatim>\<open>while True\<close> loop over the pixel iterator, with both \<^verbatim>\<open>except\<close> clauses. It is
  structurally recursive on the remaining pixels, so it always returns.
\<close>

fun decode_loop :: "pixel list \<Rightarrow> str \<Rightarrow> error + str" where
  "decode_loop (pixel1 # pixel2 # pixel3 # pixel_iterator) decoded_text =
     (let color_values = take 3 pixel1 @ take 3 pixel2 @ take 3 pixel3
      in case binary_string_of color_values of
           Inl e \<Rightarrow> Inl e
         | Inr binary_string \<Rightarrow>
             (case int_base2 binary_string of
                None \<Rightarrow> Inl (SteganographyError InvalidEncodedData)
              | Some char_code \<Rightarrow>
                  (case chr char_code of
                     None \<Rightarrow> Inl (SteganographyError InvalidEncodedData)
                   | Some c \<Rightarrow>
                       (if 8 < length color_values
                        then (if color_values ! 8 mod 2 \<noteq> 0 then Inr (decoded_text @ [c])
                              else decode_loop pixel_iterator (decoded_text @ [c]))
                        else Inl IndexError))))"
| "decode_loop pixel_iterator decoded_text =
     Inl (SteganographyError UnexpectedEndOfImageData)"

definition decode :: "image \<Rightarrow> error + str" where
  "decode img = decode_loop (data img) []"

subsection \<open>Well-formed inputs\<close>

text \<open>
  A PIL image holds exactly width times height pixels. The codec is written for pixels
  of at least 3 channels.
\<close>

definition wf_image :: "image \<Rightarrow> bool" where
  "wf_image img = (length (data img) = width img * height img)"

definition channels3 :: "pixel list \<Rightarrow> bool" where
  "channels3 ps = list_all (\<lambda>p. 3 \<le> length p) ps"

subsection \<open>What a group of three pixels carries\<close>

text \<open>
  The wire format in its own words, for the statements below: a group carries a
  character in the least significant bits of its first eight colour values, the first
  value holding the most significant bit. A pixel the generator yields is
  \<open>lsb_adjusted\<close> from the pixel it was made of when it has three values, each of them
  \<open>make_even\<close> or \<open>make_odd\<close> of the channel at the same place.
\<close>

definition lsb :: "int \<Rightarrow> nat" where
  "lsb v = nat (v mod 2)"

definition msb_first :: "nat list \<Rightarrow> nat" where
  "msb_first bits = foldl (\<lambda>a b. 2 * a + b) 0 bits"

definition group_char :: "pixel \<Rightarrow> pixel \<Rightarrow> pixel \<Rightarrow> nat" where
  "group_char p1 p2 p3 =
     msb_first (map lsb [p1 ! 0, p1 ! 1, p1 ! 2, p2 ! 0, p2 ! 1, p2 ! 2, p3 ! 0, p3 ! 1])"

definition lsb_adjusted :: "pixel \<Rightarrow> pixel \<Rightarrow> bool" where
  "lsb_adjusted q p =
     (length q = 3 \<and> (\<forall>j<3. q ! j = make_even (p ! j) \<or> q ! j = make_odd (p ! j)))"

section \<open>Properties\<close>

subsection \<open>Single values\<close>

lemma make_even_even [simp]: "make_even v mod 2 = 0"
  unfolding make_even_def by presburger

lemma make_odd_odd [simp]: "make_odd v mod 2 = 1"
  unfolding make_odd_def by presburger

lemma extract_encode_bit:
  "b = CHR ''0'' \<or> b = CHR ''1'' \<Longrightarrow> extract_bit_from_value (encode_bit_in_value v b) = b"
  by (auto simp: extract_bit_from_value_def encode_bit_in_value_def)

text \<open>
  Claim C7. On every channel value \<open>v\<close> between 0 and 255 and for both bits:
  \<open>make_even\<close> and \<open>make_odd\<close> are idempotent, reading the bit back after
  \<open>encode_bit_in_value\<close> returns the bit written, and the results of \<open>make_even\<close> and
  \<open>make_odd\<close> stay between 0 and 255 and are at most 1 away from \<open>v\<close>.
\<close>

theorem bit_functions:
  assumes "0 \<le> v" and "v \<le> 255" and "b = CHR ''0'' \<or> b = CHR ''1''"
  shows "make_even (make_even v) = make_even v
       \<and> make_odd (make_odd v) = make_odd v
       \<and> extract_bit_from_value (encode_bit_in_value v b) = b
       \<and> 0 \<le> make_even v \<and> make_even v \<le> 255 \<and> \<bar>make_even v - v\<bar> \<le> 1
       \<and> 0 \<le> make_odd v \<and> make_odd v \<le> 255 \<and> \<bar>make_odd v - v\<bar> \<le> 1"
proof -
  have "make_even (make_even v) = make_even v"
    unfolding make_even_def by presburger
  moreover have "make_odd (make_odd v) = make_odd v"
    unfolding make_odd_def by presburger
  moreover have "extract_bit_from_value (encode_bit_in_value v b) = b"
    using assms(3) by (rule extract_encode_bit)
  moreover have "0 \<le> make_even v \<and> make_even v \<le> 255 \<and> \<bar>make_even v - v\<bar> \<le> 1"
    using assms(1,2) unfolding make_even_def by presburger
  moreover have "0 \<le> make_odd v \<and> make_odd v \<le> 255 \<and> \<bar>make_odd v - v\<bar> \<le> 1"
    using assms(1,2) unfolding make_odd_def by presburger
  ultimately show ?thesis by blast
qed

theorem bit_functions_witness:
  "(0::int) \<le> 255 \<and> (255::int) \<le> 255 \<and> (CHR ''1'' = CHR ''0'' \<or> CHR ''1'' = CHR ''1'')
   \<and> make_odd (make_odd 255) = make_odd 255
   \<and> extract_bit_from_value (encode_bit_in_value 255 CHR ''1'') = CHR ''1''
   \<and> make_odd 255 = 255 \<and> make_even 255 = 254"
  using bit_functions [of 255 "CHR ''1''"] by (simp add: make_odd_def make_even_def)

subsection \<open>Binary strings\<close>

lemma int_base2_digits_append:
  "int_base2_digits (xs @ ys) acc =
     (case int_base2_digits xs acc of None \<Rightarrow> None | Some a \<Rightarrow> int_base2_digits ys a)"
  by (induction xs arbitrary: acc) auto

lemma int_base2_digits_digit_char:
  "d < 2 \<Longrightarrow> int_base2_digits [digit_char d] acc = Some (2 * acc + d)"
  by (auto simp: digit_char_def)

lemma int_base2_digits_bin_digits: "int_base2_digits (bin_digits n) 0 = Some n"
proof (induction n rule: bin_digits.induct)
  case (1 n)
  show ?case
  proof (cases "n < 2")
    case True
    then show ?thesis
      by (subst bin_digits.simps)
         (simp del: int_base2_digits.simps add: int_base2_digits_digit_char)
  next
    case False
    with 1 have "int_base2_digits (bin_digits (n div 2)) 0 = Some (n div 2)"
      by simp
    with False show ?thesis
      by (subst bin_digits.simps)
         (simp del: int_base2_digits.simps
            add: int_base2_digits_append int_base2_digits_digit_char)
  qed
qed

lemma int_base2_digits_zeros:
  "int_base2_digits (replicate k (CHR ''0'') @ s) 0 = int_base2_digits s 0"
  by (induction k) auto

lemma bin_digits_not_Nil: "bin_digits n \<noteq> []"
  by (subst bin_digits.simps) simp

lemma int_base2_format_08b: "int_base2 (format_08b n) = Some n"
  by (simp add: int_base2_def format_08b_def bin_digits_not_Nil
      int_base2_digits_zeros int_base2_digits_bin_digits)

lemma length_bin_digits: "n < 2 ^ k \<Longrightarrow> 0 < k \<Longrightarrow> length (bin_digits n) \<le> k"
proof (induction n arbitrary: k rule: bin_digits.induct)
  case (1 n)
  show ?case
  proof (cases "n < 2")
    case True
    with 1(3) show ?thesis
      by (subst bin_digits.simps) simp
  next
    case False
    with 1(2,3) obtain j where k: "k = Suc j" and j: "0 < j"
      by (cases k; cases "k - 1") auto
    from 1(2) k have "n div 2 < 2 ^ j"
      by simp
    with 1(1) False j have "length (bin_digits (n div 2)) \<le> j"
      by simp
    with False k show ?thesis
      by (subst bin_digits.simps) simp
  qed
qed

lemma set_bin_digits: "set (bin_digits n) \<subseteq> {CHR ''0'', CHR ''1''}"
proof (induction n rule: bin_digits.induct)
  case (1 n)
  then show ?case
    by (subst bin_digits.simps) (auto simp: digit_char_def)
qed

lemma set_format_08b: "set (format_08b n) \<subseteq> {CHR ''0'', CHR ''1''}"
  using set_bin_digits [of n] by (auto simp: format_08b_def)

lemma length_format_08b_ge: "8 \<le> length (format_08b n)"
  by (simp add: format_08b_def)

lemma length_format_08b: "n \<le> 255 \<Longrightarrow> length (format_08b n) = 8"
  using length_bin_digits [of n 8] by (simp add: format_08b_def)

subsection \<open>One group of three pixels\<close>

lemma take_3: "3 \<le> length p \<Longrightarrow> take 3 p = [p ! 0, p ! 1, p ! 2]"
  by (cases p; cases "tl p"; cases "tl (tl p)") auto

lemma upt_8: "[0..<8] = [0, 1, 2, 3, 4, 5, 6, 7]"
  by (simp add: upt_rec)

lemma encode_group_eq:
  assumes "3 \<le> length p1" "3 \<le> length p2" "3 \<le> length p3" "8 \<le> length bc"
  shows "encode_group is_last bc p1 p2 p3 =
    Inr [[encode_bit_in_value (p1 ! 0) (bc ! 0), encode_bit_in_value (p1 ! 1) (bc ! 1),
          encode_bit_in_value (p1 ! 2) (bc ! 2)],
         [encode_bit_in_value (p2 ! 0) (bc ! 3), encode_bit_in_value (p2 ! 1) (bc ! 4),
          encode_bit_in_value (p2 ! 2) (bc ! 5)],
         [encode_bit_in_value (p3 ! 0) (bc ! 6), encode_bit_in_value (p3 ! 1) (bc ! 7),
          (if is_last then make_odd (p3 ! 2) else make_even (p3 ! 2))]]"
  using assms
  by (auto simp: encode_group_def BITS_PER_CHAR_def upt_8 take_3 set_termination_flag_def)

lemma int_base2_digits_extract:
  "int_base2_digits (map extract_bit_from_value vs) acc =
     Some (foldl (\<lambda>a b. 2 * a + b) acc (map lsb vs))"
  by (induction vs arbitrary: acc) (auto simp: extract_bit_from_value_def lsb_def)

lemma lsb_le_1: "lsb v \<le> 1"
proof -
  have "v mod 2 = 0 \<or> v mod 2 = 1"
    by presburger
  then show ?thesis
    by (auto simp: lsb_def)
qed

lemma group_char_less: "group_char p1 p2 p3 < 256"
  using lsb_le_1 [of "p1 ! 0"] lsb_le_1 [of "p1 ! 1"] lsb_le_1 [of "p1 ! 2"]
    lsb_le_1 [of "p2 ! 0"] lsb_le_1 [of "p2 ! 1"] lsb_le_1 [of "p2 ! 2"]
    lsb_le_1 [of "p3 ! 0"] lsb_le_1 [of "p3 ! 1"]
  by (simp add: group_char_def msb_first_def)

lemma int_base2_group:
  "int_base2 (map extract_bit_from_value
     [p1 ! 0, p1 ! 1, p1 ! 2, p2 ! 0, p2 ! 1, p2 ! 2, p3 ! 0, p3 ! 1]) =
   Some (group_char p1 p2 p3)"
  unfolding int_base2_def group_char_def msb_first_def
  by (simp only: int_base2_digits_extract) simp

lemma decode_loop_group:
  assumes "3 \<le> length p1" "3 \<le> length p2" "3 \<le> length p3"
  shows "decode_loop (p1 # p2 # p3 # rest) acc =
     (if p3 ! 2 mod 2 \<noteq> 0 then Inr (acc @ [group_char p1 p2 p3])
      else decode_loop rest (acc @ [group_char p1 p2 p3]))"
proof -
  have c: "chr (group_char p1 p2 p3) = Some (group_char p1 p2 p3)"
    using group_char_less [of p1 p2 p3] by (simp add: chr_def)
  show ?thesis
    using assms int_base2_group [of p1 p2 p3]
    by (simp add: Let_def take_3 binary_string_of_def BITS_PER_CHAR_def upt_8 c)
qed

lemma lsb_encode_bit:
  "lsb (encode_bit_in_value v b) = (if b = CHR ''0'' then 0 else 1)"
  by (simp add: lsb_def encode_bit_in_value_def)

lemma int_base2_digits_bits:
  "set bs \<subseteq> {CHR ''0'', CHR ''1''} \<Longrightarrow>
   int_base2_digits bs acc =
     Some (foldl (\<lambda>a b. 2 * a + b) acc (map (\<lambda>b. if b = CHR ''0'' then 0 else 1) bs))"
  by (induction bs arbitrary: acc) auto

lemma length_8:
  assumes "length bc = 8"
  shows "bc = [bc ! 0, bc ! 1, bc ! 2, bc ! 3, bc ! 4, bc ! 5, bc ! 6, bc ! 7]"
proof -
  have "map ((!) bc) [0..<8] = bc"
    unfolding assms [symmetric] by (rule map_nth)
  then show ?thesis
    unfolding upt_8 by simp
qed

lemma group_char_encoded:
  assumes "length bc = 8" "set bc \<subseteq> {CHR ''0'', CHR ''1''}" "int_base2 bc = Some n"
  shows "group_char
     [encode_bit_in_value a0 (bc ! 0), encode_bit_in_value a1 (bc ! 1),
      encode_bit_in_value a2 (bc ! 2)]
     [encode_bit_in_value a3 (bc ! 3), encode_bit_in_value a4 (bc ! 4),
      encode_bit_in_value a5 (bc ! 5)]
     [encode_bit_in_value a6 (bc ! 6), encode_bit_in_value a7 (bc ! 7), f] = n"
proof -
  let ?bit = "\<lambda>b. if b = CHR ''0'' then 0 else (1::nat)"
  have "group_char
     [encode_bit_in_value a0 (bc ! 0), encode_bit_in_value a1 (bc ! 1),
      encode_bit_in_value a2 (bc ! 2)]
     [encode_bit_in_value a3 (bc ! 3), encode_bit_in_value a4 (bc ! 4),
      encode_bit_in_value a5 (bc ! 5)]
     [encode_bit_in_value a6 (bc ! 6), encode_bit_in_value a7 (bc ! 7), f] =
     msb_first (map ?bit [bc ! 0, bc ! 1, bc ! 2, bc ! 3, bc ! 4, bc ! 5, bc ! 6, bc ! 7])"
    by (simp add: group_char_def lsb_encode_bit)
  also have "\<dots> = msb_first (map ?bit bc)"
    using length_8 [OF assms(1)] by simp
  also have "Some \<dots> = int_base2 bc"
    using assms(1,2) by (auto simp: int_base2_def msb_first_def int_base2_digits_bits)
  finally show ?thesis
    using assms(3) by simp
qed

lemma channels3_simps [simp]:
  "channels3 []" "channels3 (p # ps) = (3 \<le> length p \<and> channels3 ps)"
  by (simp_all add: channels3_def)

lemma less_3_cases: "j < (3::nat) \<Longrightarrow> j = 0 \<or> j = 1 \<or> j = 2"
  by arith

lemma encode_group_frame:
  assumes "3 \<le> length p1" "3 \<le> length p2" "3 \<le> length p3" "8 \<le> length bc"
  obtains q1 q2 q3 where
    "encode_group is_last bc p1 p2 p3 = Inr [q1, q2, q3]"
    "lsb_adjusted q1 p1" "lsb_adjusted q2 p2" "lsb_adjusted q3 p3"
    "q3 ! 2 mod 2 = (if is_last then 1 else 0)"
proof -
  let ?q1 = "[encode_bit_in_value (p1 ! 0) (bc ! 0), encode_bit_in_value (p1 ! 1) (bc ! 1),
          encode_bit_in_value (p1 ! 2) (bc ! 2)]"
  let ?q2 = "[encode_bit_in_value (p2 ! 0) (bc ! 3), encode_bit_in_value (p2 ! 1) (bc ! 4),
          encode_bit_in_value (p2 ! 2) (bc ! 5)]"
  let ?q3 = "[encode_bit_in_value (p3 ! 0) (bc ! 6), encode_bit_in_value (p3 ! 1) (bc ! 7),
          (if is_last then make_odd (p3 ! 2) else make_even (p3 ! 2))]"
  have "encode_group is_last bc p1 p2 p3 = Inr [?q1, ?q2, ?q3]"
    using assms by (rule encode_group_eq)
  moreover have "lsb_adjusted ?q1 p1" "lsb_adjusted ?q2 p2" "lsb_adjusted ?q3 p3"
    by (auto simp: lsb_adjusted_def encode_bit_in_value_def dest!: less_3_cases)
  moreover have "?q3 ! 2 mod 2 = (if is_last then 1 else 0)"
    by simp
  ultimately show ?thesis
    by (rule that)
qed

lemma encode_group_char:
  assumes "3 \<le> length p1" "3 \<le> length p2" "3 \<le> length p3" "n \<le> 255"
  obtains q1 q2 q3 where
    "encode_group is_last (format_08b n) p1 p2 p3 = Inr [q1, q2, q3]"
    "length q1 = 3" "length q2 = 3" "length q3 = 3"
    "group_char q1 q2 q3 = n"
    "q3 ! 2 mod 2 = (if is_last then 1 else 0)"
proof -
  let ?bc = "format_08b n"
  let ?q1 = "[encode_bit_in_value (p1 ! 0) (?bc ! 0), encode_bit_in_value (p1 ! 1) (?bc ! 1),
          encode_bit_in_value (p1 ! 2) (?bc ! 2)]"
  let ?q2 = "[encode_bit_in_value (p2 ! 0) (?bc ! 3), encode_bit_in_value (p2 ! 1) (?bc ! 4),
          encode_bit_in_value (p2 ! 2) (?bc ! 5)]"
  let ?q3 = "[encode_bit_in_value (p3 ! 0) (?bc ! 6), encode_bit_in_value (p3 ! 1) (?bc ! 7),
          (if is_last then make_odd (p3 ! 2) else make_even (p3 ! 2))]"
  have len: "length ?bc = 8"
    using assms(4) by (rule length_format_08b)
  have "encode_group is_last ?bc p1 p2 p3 = Inr [?q1, ?q2, ?q3]"
    using assms(1-3) len by (intro encode_group_eq) simp_all
  moreover have "length ?q1 = 3" "length ?q2 = 3" "length ?q3 = 3"
    by simp_all
  moreover have "group_char ?q1 ?q2 ?q3 = n"
    using len set_format_08b int_base2_format_08b by (rule group_char_encoded)
  moreover have "?q3 ! 2 mod 2 = (if is_last then 1 else 0)"
    by simp
  ultimately show ?thesis
    by (rule that)
qed

subsection \<open>The generator\<close>

lemma three_pixels:
  assumes "3 \<le> length ps"
  obtains p1 p2 p3 ps' where "ps = p1 # p2 # p3 # ps'"
  using assms by (cases ps; cases "tl ps"; cases "tl (tl ps)") auto

lemma take_3_plus: "take (3 + n) (a # b # c # xs) = a # b # c # take n xs"
  by (simp add: numeral_3_eq_3)

lemma nth_3_plus: "(a # b # c # xs) ! (3 + n) = xs ! n"
  by (simp add: numeral_3_eq_3)

lemma modify_pixels_loop_roundtrip:
  assumes "channels3 ps" "3 * length msg \<le> length ps" "\<forall>c\<in>set msg. c \<le> 255" "msg \<noteq> []"
  shows "\<exists>ys. modify_pixels_loop i (i + length msg) (map format_08b msg) ps = (ys, None)
            \<and> decode_loop (ys @ rest) acc = Inr (acc @ msg)"
  using assms
proof (induction msg arbitrary: i ps acc)
  case Nil
  then show ?case by simp
next
  case (Cons c cs)
  from Cons.prems(2) have "3 \<le> length ps"
    by simp
  then obtain p1 p2 p3 ps' where ps: "ps = p1 # p2 # p3 # ps'"
    by (rule three_pixels)
  with Cons.prems(1) have l: "3 \<le> length p1" "3 \<le> length p2" "3 \<le> length p3"
    and c3: "channels3 ps'"
    by simp_all
  from Cons.prems(3) have c: "c \<le> 255"
    by simp
  define fin where "fin \<longleftrightarrow> int i = int (i + length (c # cs)) - 1"
  from l c obtain q1 q2 q3 where
    q: "encode_group fin (format_08b c) p1 p2 p3 = Inr [q1, q2, q3]"
      "length q1 = 3" "length q2 = 3" "length q3 = 3" "group_char q1 q2 q3 = c"
      "q3 ! 2 mod 2 = (if fin then 1 else 0)"
    by (rule encode_group_char)
  have step: "modify_pixels_loop i (i + length (c # cs)) (map format_08b (c # cs)) ps =
      (case modify_pixels_loop (Suc i) (Suc i + length cs) (map format_08b cs) ps' of
         (later, raised) \<Rightarrow> ([q1, q2, q3] @ later, raised))"
    using q(1) unfolding ps fin_def by simp
  show ?case
  proof (cases "cs = []")
    case True
    then have fin
      by (simp add: fin_def)
    have "modify_pixels_loop i (i + length (c # cs)) (map format_08b (c # cs)) ps =
        ([q1, q2, q3], None)"
      unfolding step using True by simp
    moreover have "decode_loop ([q1, q2, q3] @ rest) acc = Inr (acc @ c # cs)"
      using q(2-6) \<open>fin\<close> True by (simp add: decode_loop_group del: decode_loop.simps)
    ultimately show ?thesis
      by blast
  next
    case False
    then have "\<not> fin"
      by (cases cs) (auto simp: fin_def)
    from Cons.prems(2,3) ps have "3 * length cs \<le> length ps'" "\<forall>c\<in>set cs. c \<le> 255"
      by simp_all
    from Cons.IH [OF c3 this False, of "Suc i" "acc @ [c]"] obtain ys where
      ys: "modify_pixels_loop (Suc i) (Suc i + length cs) (map format_08b cs) ps' = (ys, None)"
        "decode_loop (ys @ rest) (acc @ [c]) = Inr ((acc @ [c]) @ cs)"
      by blast
    have "modify_pixels_loop i (i + length (c # cs)) (map format_08b (c # cs)) ps =
        ([q1, q2, q3] @ ys, None)"
      unfolding step using ys(1) by simp
    moreover have "decode_loop (([q1, q2, q3] @ ys) @ rest) acc = Inr (acc @ c # cs)"
      using q(2-6) \<open>\<not> fin\<close> ys(2) by (simp add: decode_loop_group del: decode_loop.simps)
    ultimately show ?thesis
      by blast
  qed
qed

lemma modify_pixels_loop_frame:
  assumes "channels3 ps" "3 * length bcs \<le> length ps" "\<forall>bc\<in>set bcs. 8 \<le> length bc"
  shows "\<exists>ys. modify_pixels_loop i n bcs ps = (ys, None)
            \<and> list_all2 lsb_adjusted ys (take (3 * length bcs) ps)
            \<and> (\<forall>k<length bcs. (ys ! (3 * k + 2)) ! 2 mod 2 =
                   (if int (i + k) = int n - 1 then 1 else 0))"
  using assms
proof (induction bcs arbitrary: i ps)
  case Nil
  then show ?case by simp
next
  case (Cons bc bcs)
  from Cons.prems(2) have "3 \<le> length ps"
    by simp
  then obtain p1 p2 p3 ps' where ps: "ps = p1 # p2 # p3 # ps'"
    by (rule three_pixels)
  with Cons.prems(1) have l: "3 \<le> length p1" "3 \<le> length p2" "3 \<le> length p3"
    and c3: "channels3 ps'"
    by simp_all
  from Cons.prems(3) have bc: "8 \<le> length bc"
    by simp
  define fin where "fin \<longleftrightarrow> int i = int n - 1"
  from l bc obtain q1 q2 q3 where
    q: "encode_group fin bc p1 p2 p3 = Inr [q1, q2, q3]"
      "lsb_adjusted q1 p1" "lsb_adjusted q2 p2" "lsb_adjusted q3 p3"
      "q3 ! 2 mod 2 = (if fin then 1 else 0)"
    by (rule encode_group_frame)
  from Cons.prems(2,3) ps have "3 * length bcs \<le> length ps'" "\<forall>bc\<in>set bcs. 8 \<le> length bc"
    by simp_all
  from Cons.IH [OF c3 this, of "Suc i"] obtain ys where
    ys: "modify_pixels_loop (Suc i) n bcs ps' = (ys, None)"
      "list_all2 lsb_adjusted ys (take (3 * length bcs) ps')"
      "\<forall>k<length bcs. (ys ! (3 * k + 2)) ! 2 mod 2 =
         (if int (Suc i + k) = int n - 1 then 1 else 0)"
    by blast
  have "modify_pixels_loop i n (bc # bcs) ps = (q1 # q2 # q3 # ys, None)"
    using q(1) ys(1) unfolding ps fin_def by simp
  moreover have "list_all2 lsb_adjusted (q1 # q2 # q3 # ys) (take (3 * length (bc # bcs)) ps)"
    using q(2-4) ys(2) unfolding ps by (simp add: take_3_plus)
  moreover have "(q1 # q2 # q3 # ys) ! (3 * k + 2) ! 2 mod 2 =
      (if int (i + k) = int n - 1 then 1 else 0)" if "k < length (bc # bcs)" for k
  proof (cases k)
    case 0
    with q(5) show ?thesis
      by (simp add: fin_def)
  next
    case (Suc k')
    have "3 * k + 2 = 3 + (3 * k' + 2)"
      using Suc by simp
    with that ys(3) Suc show ?thesis
      by (simp add: nth_3_plus del: nth_Cons_Suc)
  qed
  ultimately show ?case
    by blast
qed

subsection \<open>Writing the pixels back\<close>

lemma length_getink: "length (getink bands p) = bands"
  by (simp add: getink_def)

lemma getink_3:
  "length p = 3 \<Longrightarrow> 3 \<le> bands \<Longrightarrow> getink bands p = p @ replicate (bands - 3) 255"
  by (simp add: getink_def)

lemma channels3_nth: "channels3 ps \<Longrightarrow> k < length ps \<Longrightarrow> 3 \<le> length (ps ! k)"
  by (simp add: channels3_def list_all_length)

lemma channels3_update:
  "channels3 ps \<Longrightarrow> 3 \<le> length q \<Longrightarrow> channels3 (ps[k := q])"
  unfolding channels3_def list_all_iff
  using set_update_subset_insert [of ps k q] by auto

lemma putpixel_cases:
  "(\<exists>e. putpixel h r (x, y) p = Inl e) \<or> (\<exists>img. putpixel h r (x, y) p = Inr (h[r := img]))"
  by (auto simp: putpixel_def Let_def)

lemma putpixel_Inr:
  assumes "x < width (h ! r)" "y < height (h ! r)" "i = y * width (h ! r) + x"
    "3 \<le> length (data (h ! r) ! i)" "length p = 3"
  shows "putpixel h r (x, y) p =
    Inr (h[r := (h ! r)\<lparr>data := (data (h ! r))[i := getink (length (data (h ! r) ! i)) p]\<rparr>])"
  using assms by (simp add: putpixel_def Let_def)

lemma put_pixels_heap:
  "put_pixels r w x y ps h = (st, h') \<Longrightarrow> length h' = length h \<and> take r h' = take r h"
proof (induction ps arbitrary: x y h)
  case Nil
  then show ?case by simp
next
  case (Cons p ps)
  from putpixel_cases [of h r x y p] show ?case
  proof (elim disjE exE)
    fix e assume "putpixel h r (x, y) p = Inl e"
    with Cons.prems show ?thesis by simp
  next
    fix img assume "putpixel h r (x, y) p = Inr (h[r := img])"
    with Cons.prems have
      "put_pixels r w 0 (y + 1) ps (h[r := img]) = (st, h') \<or>
       put_pixels r w (x + 1) y ps (h[r := img]) = (st, h')"
      by (simp split: if_splits)
    then have "length h' = length (h[r := img]) \<and> take r h' = take r (h[r := img])"
      using Cons.IH by blast
    then show ?thesis by simp
  qed
qed

lemma row_bound:
  fixes y w x hh :: nat
  assumes "y * w + x < w * hh"
  shows "y < hh"
proof (rule ccontr)
  assume "\<not> y < hh"
  then have "hh \<le> y"
    by simp
  then have "hh * w \<le> y * w"
    by (rule mult_le_mono1)
  then have "w * hh \<le> y * w + x"
    unfolding mult.commute [of w hh] by (rule trans_le_add1)
  with assms show False
    by linarith
qed

lemma put_pixels_None:
  assumes "r < length h" "wf_image (h ! r)" "w = width (h ! r)" "x < w \<or> ps = []"
    "k = y * w + x" "k + length ps \<le> length (data (h ! r))"
    "channels3 (data (h ! r))" "\<forall>p\<in>set ps. length p = 3"
  shows "put_pixels r w x y ps h =
    (None, h[r := (h ! r)\<lparr>data :=
       take k (data (h ! r))
       @ map2 (\<lambda>p old. getink (length old) p) ps (drop k (data (h ! r)))
       @ drop (k + length ps) (data (h ! r))\<rparr>])"
  using assms
proof (induction ps arbitrary: x y k h)
  case Nil
  then show ?case by simp
next
  case (Cons p ps)
  let ?img = "h ! r"
  let ?d = "data ?img"
  let ?q = "getink (length (?d ! k)) p"
  let ?h1 = "h[r := ?img\<lparr>data := ?d[k := ?q]\<rparr>]"
  let ?f = "\<lambda>p old. getink (length old) p"
  from Cons.prems have x: "x < w" and k: "k < length ?d" and p: "length p = 3"
    by simp_all
  from k Cons.prems(7) have bands: "3 \<le> length (?d ! k)"
    by (simp add: channels3_nth)
  from k Cons.prems(2,3,5) have "y * w + x < w * height ?img"
    by (simp add: wf_image_def)
  then have y: "y < height ?img"
    by (rule row_bound)
  from x y Cons.prems(3,5) bands p have put: "putpixel h r (x, y) p = Inr ?h1"
    by (simp add: putpixel_Inr)
  from Cons.prems(1) have h1: "?h1 ! r = ?img\<lparr>data := ?d[k := ?q]\<rparr>"
    by simp
  define x' y' where "x' = (if x + 1 \<ge> w then 0 else x + 1)"
    and "y' = (if x + 1 \<ge> w then y + 1 else y)"
  have step: "put_pixels r w x y (p # ps) h = put_pixels r w x' y' ps ?h1"
    by (simp add: put x'_def y'_def)
  have k': "Suc k = y' * w + x'"
    using x Cons.prems(5) by (auto simp: x'_def y'_def)
  have "put_pixels r w x' y' ps ?h1 =
    (None, ?h1[r := (?h1 ! r)\<lparr>data :=
       take (Suc k) (data (?h1 ! r))
       @ map2 ?f ps (drop (Suc k) (data (?h1 ! r)))
       @ drop (Suc k + length ps) (data (?h1 ! r))\<rparr>])"
  proof (rule Cons.IH [OF _ _ _ _ k'])
    show "r < length ?h1"
      using Cons.prems(1) by simp
    show "wf_image (?h1 ! r)"
      using Cons.prems(2) by (simp add: h1 wf_image_def)
    show "w = width (?h1 ! r)"
      using Cons.prems(3) by (simp add: h1)
    show "x' < w \<or> ps = []"
      using x by (simp add: x'_def)
    show "Suc k + length ps \<le> length (data (?h1 ! r))"
      using Cons.prems(6) by (simp add: h1)
    show "channels3 (data (?h1 ! r))"
      using Cons.prems(7) bands by (simp add: h1 channels3_update length_getink)
    show "\<forall>p\<in>set ps. length p = 3"
      using Cons.prems(8) by simp
  qed
  also have "take (Suc k) (data (?h1 ! r)) = take k ?d @ [?q]"
    using k by (simp add: h1 take_Suc_conv_app_nth)
  also have "drop (Suc k) (data (?h1 ! r)) = drop (Suc k) ?d"
    by (simp add: h1)
  also have "drop (Suc k + length ps) (data (?h1 ! r)) = drop (k + length (p # ps)) ?d"
    by (simp add: h1)
  finally have "put_pixels r w x' y' ps ?h1 =
    (None, h[r := ?img\<lparr>data :=
       take k ?d @ (?q # map2 ?f ps (drop (Suc k) ?d)) @ drop (k + length (p # ps)) ?d\<rparr>])"
    by (simp add: h1)
  moreover have "?q # map2 ?f ps (drop (Suc k) ?d) = map2 ?f (p # ps) (drop k ?d)"
    using k by (simp add: Cons_nth_drop_Suc [symmetric])
  ultimately show ?case
    unfolding step by simp
qed

lemma stored_take_3:
  assumes "\<forall>p\<in>set ys. length p = 3" "length ys \<le> length d" "channels3 d"
  shows "map (take 3) (map2 (\<lambda>p old. getink (length old) p) ys d) = ys"
  using assms
proof (induction ys arbitrary: d)
  case Nil
  then show ?case by simp
next
  case (Cons y ys)
  then obtain old d' where d: "d = old # d'"
    by (cases d) auto
  with Cons.prems have "take 3 (getink (length old) y) = y"
    by (simp add: getink_3)
  with Cons d show ?case
    by simp
qed

lemma stored_nth:
  assumes "k < length ys" "length ys \<le> length d" "length (ys ! k) = 3" "3 \<le> length (d ! k)"
  shows "(map2 (\<lambda>p old. getink (length old) p) ys d @ rest) ! k =
    ys ! k @ replicate (length (d ! k) - 3) 255"
  using assms by (simp add: nth_append getink_3)

lemma list_all2_lsb_adjusted_length:
  "list_all2 lsb_adjusted ys ps \<Longrightarrow> \<forall>y\<in>set ys. length y = 3"
  by (induction rule: list_all2_induct) (simp_all add: lsb_adjusted_def)

subsection \<open>The result of \<^verbatim>\<open>encode\<close>\<close>

lemma validate_image_capacity_eq:
  "wf_image img \<Longrightarrow>
   validate_image_capacity img msg =
     (if length (data img) < 3 * length msg then Inl (SteganographyError ImageTooSmall)
      else Inr ())"
  by (simp add: validate_image_capacity_def wf_image_def Let_def mult.commute)

lemma encode_too_small:
  assumes "wf_image (h ! r)" "msg \<noteq> []" "length (data (h ! r)) < 3 * length msg"
  shows "encode h r msg = (Inl (SteganographyError ImageTooSmall), h)"
  using assms by (simp add: encode_def validate_image_capacity_eq)

lemma encode_Inr:
  assumes "r < length h" "wf_image (h ! r)" "msg \<noteq> []"
    "3 * length msg \<le> length (data (h ! r))"
    "modify_pixels_loop 0 (length msg) (map format_08b msg) (data (h ! r)) = (ys, None)"
    "length ys = 3 * length msg"
    "channels3 (data (h ! r))" "\<forall>p\<in>set ys. length p = 3"
  shows "encode h r msg =
    (Inr (length h), h @ [(h ! r)\<lparr>data :=
       map2 (\<lambda>p old. getink (length old) p) ys (data (h ! r))
       @ drop (length ys) (data (h ! r))\<rparr>])"
proof -
  let ?img = "h ! r"
  let ?h1 = "h @ [?img]"
  let ?f = "\<lambda>p old. getink (length old) p"
  have copy: "?h1 ! length h = ?img"
    by simp
  from assms(3,4) have "0 < length (data ?img)"
    by (cases msg) auto
  with assms(2) have w: "0 < width ?img"
    by (simp add: wf_image_def)
  have "put_pixels (length h) (width ?img) 0 0 ys ?h1 =
    (None, ?h1[length h := (?h1 ! length h)\<lparr>data :=
       take 0 (data (?h1 ! length h))
       @ map2 ?f ys (drop 0 (data (?h1 ! length h)))
       @ drop (0 + length ys) (data (?h1 ! length h))\<rparr>])"
  proof (rule put_pixels_None)
    show "length h < length ?h1" by simp
    show "wf_image (?h1 ! length h)" using assms(2) by simp
    show "width ?img = width (?h1 ! length h)" by simp
    show "0 < width ?img \<or> ys = []" using w by simp
    show "0 = 0 * width ?img + 0" by simp
    show "0 + length ys \<le> length (data (?h1 ! length h))" using assms(4,6) by simp
    show "channels3 (data (?h1 ! length h))" using assms(7) by simp
    show "\<forall>p\<in>set ys. length p = 3" by (rule assms(8))
  qed
  then have put: "put_pixels (length h) (width ?img) 0 0 ys ?h1 =
      (None, h @ [?img\<lparr>data := map2 ?f ys (data ?img) @ drop (length ys) (data ?img)\<rparr>])"
    by simp
  show ?thesis
    using assms(2-5) put
    by (simp add: encode_def validate_image_capacity_eq image_copy_def
        modify_pixels_for_encoding_def text_to_binary_def Let_def)
qed

lemma length_modify_pixels_loop:
  "modify_pixels_loop i n bcs ps = (ys, None) \<Longrightarrow> length ys = 3 * length bcs"
proof (induction i n bcs ps arbitrary: ys rule: modify_pixels_loop.induct)
  case (2 char_index num_chars binary_char rest pixel1 pixel2 pixel3 pixel_iterator)
  then show ?case
    by (auto simp: encode_group_def split: sum.splits prod.splits)
qed simp_all

lemma encode_loop_result:
  assumes "r < length h" "wf_image (h ! r)" "channels3 (data (h ! r))" "msg \<noteq> []"
    "3 * length msg \<le> length (data (h ! r))"
  obtains ys where
    "modify_pixels_loop 0 (length msg) (map format_08b msg) (data (h ! r)) = (ys, None)"
    "length ys = 3 * length msg"
    "encode h r msg =
       (Inr (length h), h @ [(h ! r)\<lparr>data :=
          map2 (\<lambda>p old. getink (length old) p) ys (data (h ! r))
          @ drop (length ys) (data (h ! r))\<rparr>])"
    "list_all2 lsb_adjusted ys (take (3 * length msg) (data (h ! r)))"
    "\<forall>k<length msg. (ys ! (3 * k + 2)) ! 2 mod 2 = (if int k = int (length msg) - 1 then 1 else 0)"
proof -
  have "\<forall>bc\<in>set (map format_08b msg). 8 \<le> length bc"
    by (simp add: length_format_08b_ge)
  with assms(3,5) modify_pixels_loop_frame
    [of "data (h ! r)" "map format_08b msg" 0 "length msg"]
  obtain ys where
    ys: "modify_pixels_loop 0 (length msg) (map format_08b msg) (data (h ! r)) = (ys, None)"
      "list_all2 lsb_adjusted ys (take (3 * length msg) (data (h ! r)))"
      "\<forall>k<length msg. (ys ! (3 * k + 2)) ! 2 mod 2 =
         (if int k = int (length msg) - 1 then 1 else 0)"
    by auto
  from ys(1) have len: "length ys = 3 * length msg"
    by (simp add: length_modify_pixels_loop)
  from ys(2) have three: "\<forall>p\<in>set ys. length p = 3"
    by (rule list_all2_lsb_adjusted_length)
  from assms(1,2,4,5) ys(1) len assms(3) three have enc:
    "encode h r msg =
       (Inr (length h), h @ [(h ! r)\<lparr>data :=
          map2 (\<lambda>p old. getink (length old) p) ys (data (h ! r))
          @ drop (length ys) (data (h ! r))\<rparr>])"
    by (rule encode_Inr)
  show ?thesis
    by (rule that [OF ys(1) len enc ys(2) ys(3)])
qed

subsection \<open>\<^verbatim>\<open>decode\<close> reads three channels of a pixel\<close>

lemma triples_induct [case_names Nil One Two Three]:
  assumes "P []" "\<And>a. P [a]" "\<And>a b. P [a, b]"
    and "\<And>a b c xs. P xs \<Longrightarrow> P (a # b # c # xs)"
  shows "P xs"
proof (induction xs rule: length_induct)
  case (1 xs)
  show ?case
  proof (cases "length xs < 3")
    case True
    then consider "xs = []" | a where "xs = [a]" | a b where "xs = [a, b]"
      by (cases xs; cases "tl xs"; cases "tl (tl xs)") auto
    then show ?thesis
      using assms(1-3) by cases simp_all
  next
    case False
    then have "3 \<le> length xs"
      by simp
    then obtain a b c ys where xs: "xs = a # b # c # ys"
      by (rule three_pixels)
    with 1 have "P ys"
      by simp
    with xs show ?thesis
      using assms(4) by simp
  qed
qed

lemma decode_loop_take_3: "decode_loop (map (take 3) ps) acc = decode_loop ps acc"
  by (induction ps arbitrary: acc rule: triples_induct)
     (simp_all add: Let_def split: sum.splits option.splits)

subsection \<open>Round trip, capacity and termination flag\<close>

text \<open>
  Claim C1. For every non-empty text whose characters have code points up to 255 and
  every image whose pixels have at least 3 channels and number at least 3 times the
  length of the text, \<open>encode\<close> succeeds and \<open>decode\<close> of the encoded image returns the
  text. (The channel values need not lie between 0 and 255 for this.)
\<close>

theorem roundtrip:
  assumes "r < length h" "wf_image (h ! r)" "channels3 (data (h ! r))" "msg \<noteq> []"
    "\<forall>c\<in>set msg. c \<le> 255" "3 * length msg \<le> length (data (h ! r))"
  shows "\<exists>r' h'. encode h r msg = (Inr r', h') \<and> decode (h' ! r') = Inr msg"
proof -
  let ?d = "data (h ! r)"
  let ?f = "\<lambda>p old. getink (length old) p"
  from assms(1-4,6) obtain ys where
    ys: "modify_pixels_loop 0 (length msg) (map format_08b msg) ?d = (ys, None)"
    and len: "length ys = 3 * length msg"
    and enc: "encode h r msg =
       (Inr (length h), h @ [(h ! r)\<lparr>data := map2 ?f ys ?d @ drop (length ys) ?d\<rparr>])"
    and adj: "list_all2 lsb_adjusted ys (take (3 * length msg) ?d)"
    by (rule encode_loop_result)
  let ?D = "map2 ?f ys ?d @ drop (length ys) ?d"
  let ?rest = "map (take 3) (drop (length ys) ?d)"
  from assms(3,6,5,4) modify_pixels_loop_roundtrip [of ?d msg 0 ?rest "[]"]
  obtain ys' where
    "modify_pixels_loop 0 (length msg) (map format_08b msg) ?d = (ys', None)"
    "decode_loop (ys' @ ?rest) [] = Inr msg"
    by auto
  with ys have "decode_loop (ys @ ?rest) [] = Inr msg"
    by simp
  moreover have "map (take 3) ?D = ys @ ?rest"
  proof -
    from adj have "\<forall>p\<in>set ys. length p = 3"
      by (rule list_all2_lsb_adjusted_length)
    moreover from len assms(6) have "length ys \<le> length ?d"
      by simp
    ultimately have "map (take 3) (map2 ?f ys ?d) = ys"
      using assms(3) by (rule stored_take_3)
    then show ?thesis
      by simp
  qed
  ultimately have "decode_loop ?D [] = Inr msg"
    using decode_loop_take_3 [of ?D "[]"] by simp
  then have "decode ((h @ [(h ! r)\<lparr>data := ?D\<rparr>]) ! length h) = Inr msg"
    by (simp add: decode_def)
  with enc show ?thesis
    by blast
qed

theorem roundtrip_witness:
  "wf_image \<lparr>width = 3, height = 1, data = [[10, 20, 30], [40, 50, 60], [70, 80, 90]]\<rparr>
   \<and> channels3 [[10, 20, 30], [40, 50, 60], [70, 80, 90]]
   \<and> (\<exists>r' h'.
        encode [\<lparr>width = 3, height = 1, data = [[10, 20, 30], [40, 50, 60], [70, 80, 90]]\<rparr>]
          0 [65] = (Inr r', h')
        \<and> decode (h' ! r') = Inr [65])"
  using roundtrip
    [of 0 "[\<lparr>width = 3, height = 1, data = [[10, 20, 30], [40, 50, 60], [70, 80, 90]]\<rparr>]"
      "[65]"]
  by (simp add: wf_image_def)

text \<open>
  Claim C3. For every non-empty text and every image whose pixels have at least 3
  channels, \<open>encode\<close> succeeds exactly when the image has at least 3 pixels per
  character. With fewer pixels (so also with one pixel less than needed) it raises the
  capacity error of \<open>validate_image_capacity\<close> and leaves the heap as it was: no copy has
  been made and no pixel written.
\<close>

theorem capacity_boundary:
  assumes "r < length h" "wf_image (h ! r)" "channels3 (data (h ! r))" "msg \<noteq> []"
  shows "((\<exists>r' h'. encode h r msg = (Inr r', h')) \<longleftrightarrow>
            3 * length msg \<le> length (data (h ! r)))
       \<and> (length (data (h ! r)) < 3 * length msg \<longrightarrow>
            encode h r msg = (Inl (SteganographyError ImageTooSmall), h))"
proof (cases "3 * length msg \<le> length (data (h ! r))")
  case True
  with assms obtain ys where
    "encode h r msg =
       (Inr (length h), h @ [(h ! r)\<lparr>data :=
          map2 (\<lambda>p old. getink (length old) p) ys (data (h ! r))
          @ drop (length ys) (data (h ! r))\<rparr>])"
    by (rule encode_loop_result)
  with True show ?thesis
    by simp
next
  case False
  with assms(2,4) have "encode h r msg = (Inl (SteganographyError ImageTooSmall), h)"
    by (simp add: encode_too_small)
  with False show ?thesis
    by simp
qed

theorem capacity_boundary_witness:
  "wf_image \<lparr>width = 3, height = 1, data = [[10, 20, 30], [40, 50, 60], [70, 80, 90]]\<rparr>
   \<and> channels3 [[10, 20, 30], [40, 50, 60], [70, 80, 90]]
   \<and> (\<exists>r' h'.
        encode [\<lparr>width = 3, height = 1, data = [[10, 20, 30], [40, 50, 60], [70, 80, 90]]\<rparr>]
          0 [65] = (Inr r', h'))
   \<and> wf_image \<lparr>width = 2, height = 1, data = [[10, 20, 30], [40, 50, 60]]\<rparr>
   \<and> encode [\<lparr>width = 2, height = 1, data = [[10, 20, 30], [40, 50, 60]]\<rparr>] 0 [65] =
       (Inl (SteganographyError ImageTooSmall),
        [\<lparr>width = 2, height = 1, data = [[10, 20, 30], [40, 50, 60]]\<rparr>])"
  using capacity_boundary
    [of 0 "[\<lparr>width = 3, height = 1, data = [[10, 20, 30], [40, 50, 60], [70, 80, 90]]\<rparr>]"
      "[65]"]
    capacity_boundary
    [of 0 "[\<lparr>width = 2, height = 1, data = [[10, 20, 30], [40, 50, 60]]\<rparr>]" "[65]"]
  by (simp add: wf_image_def)

text \<open>
  Claim C5. When \<open>encode\<close> succeeds on a text of \<open>n\<close> characters, the 9th value of group
  \<open>i\<close> of the encoded image (the third channel of pixel \<open>3 i + 2\<close>) is odd exactly for the
  last group, \<open>i = n - 1\<close>, and even for every group before it.
\<close>

theorem termination_flag:
  assumes "r < length h" "wf_image (h ! r)" "channels3 (data (h ! r))" "msg \<noteq> []"
    "3 * length msg \<le> length (data (h ! r))"
  shows "\<exists>out. encode h r msg = (Inr (length h), h @ [out])
           \<and> (\<forall>i<length msg. (data out ! (3 * i + 2) ! 2 mod 2 \<noteq> 0) = (i + 1 = length msg))"
proof -
  let ?d = "data (h ! r)"
  let ?f = "\<lambda>p old. getink (length old) p"
  from assms obtain ys where
    len: "length ys = 3 * length msg"
    and enc: "encode h r msg =
       (Inr (length h), h @ [(h ! r)\<lparr>data := map2 ?f ys ?d @ drop (length ys) ?d\<rparr>])"
    and adj: "list_all2 lsb_adjusted ys (take (3 * length msg) ?d)"
    and flags: "\<forall>k<length msg. (ys ! (3 * k + 2)) ! 2 mod 2 =
       (if int k = int (length msg) - 1 then 1 else 0)"
    by (rule encode_loop_result)
  let ?out = "(h ! r)\<lparr>data := map2 ?f ys ?d @ drop (length ys) ?d\<rparr>"
  have "(data ?out ! (3 * i + 2) ! 2 mod 2 \<noteq> 0) = (i + 1 = length msg)"
    if "i < length msg" for i
  proof -
    from that len have k: "3 * i + 2 < length ys"
      by simp
    with adj have three: "length (ys ! (3 * i + 2)) = 3"
      using list_all2_lsb_adjusted_length [of ys "take (3 * length msg) ?d"] by simp
    from k len assms(3,5) have "3 \<le> length (?d ! (3 * i + 2))"
      by (simp add: channels3_nth)
    with k len assms(5) three have
      "data ?out ! (3 * i + 2) =
         ys ! (3 * i + 2) @ replicate (length (?d ! (3 * i + 2)) - 3) 255"
      by (simp add: stored_nth)
    with three have "data ?out ! (3 * i + 2) ! 2 = ys ! (3 * i + 2) ! 2"
      by (simp add: nth_append)
    moreover from that flags have
      "ys ! (3 * i + 2) ! 2 mod 2 = (if int i = int (length msg) - 1 then 1 else 0)"
      by blast
    moreover have "(int i = int (length msg) - 1) = (i + 1 = length msg)"
      by auto
    ultimately show ?thesis
      by simp
  qed
  with enc show ?thesis
    by blast
qed

theorem termination_flag_witness:
  "wf_image \<lparr>width = 2, height = 3, data =
      [[10, 20, 30], [40, 50, 60], [70, 80, 90], [1, 1, 1], [2, 2, 2], [255, 255, 254]]\<rparr>
   \<and> channels3 [[10, 20, 30], [40, 50, 60], [70, 80, 90], [1, 1, 1], [2, 2, 2], [255, 255, 254]]
   \<and> (\<exists>out. encode [\<lparr>width = 2, height = 3, data =
      [[10, 20, 30], [40, 50, 60], [70, 80, 90], [1, 1, 1], [2, 2, 2], [255, 255, 254]]\<rparr>]
         0 [72, 105] =
        (Inr 1, [\<lparr>width = 2, height = 3, data =
      [[10, 20, 30], [40, 50, 60], [70, 80, 90], [1, 1, 1], [2, 2, 2], [255, 255, 254]]\<rparr>, out])
      \<and> data out ! 2 ! 2 mod 2 = 0 \<and> data out ! 5 ! 2 mod 2 \<noteq> 0)"
proof -
  let ?A = "\<lparr>width = 2, height = 3, data =
      [[10, 20, 30], [40, 50, 60], [70, 80, 90], [1, 1, 1], [2, 2, 2], [255, 255, 254]]\<rparr>"
  have hyps: "wf_image ?A" "channels3 (data ?A)"
    by (simp_all add: wf_image_def)
  with termination_flag [of 0 "[?A]" "[72, 105]"] obtain out where
    enc: "encode [?A] 0 [72, 105] = (Inr 1, [?A, out])"
    and flags: "\<forall>i<2. (data out ! (3 * i + 2) ! 2 mod 2 \<noteq> 0) = (i + 1 = (2::nat))"
    by auto
  have i: "3 * 0 + 2 = (2::nat)" "3 * 1 + 2 = (5::nat)"
    by simp_all
  from flags [rule_format, of 0] have "data out ! 2 ! 2 mod 2 = 0"
    unfolding i by simp
  moreover from flags [rule_format, of 1] have "data out ! 5 ! 2 mod 2 \<noteq> 0"
    unfolding i by simp
  ultimately have "data out ! 2 ! 2 mod 2 = 0" "data out ! 5 ! 2 mod 2 \<noteq> 0"
    by simp_all
  with hyps enc show ?thesis
    by auto
qed

subsection \<open>What \<^verbatim>\<open>encode\<close> changes\<close>

lemma encode_heap: "take (length h) (snd (encode h r msg)) = h"
proof (cases "msg = []")
  case True
  then show ?thesis
    by (simp add: encode_def)
next
  case False
  show ?thesis
  proof (cases "validate_image_capacity (h ! r) msg")
    case (Inl e)
    with False show ?thesis
      by (simp add: encode_def)
  next
    case (Inr u)
    obtain ys raised where gen: "modify_pixels_for_encoding (data (h ! r)) msg = (ys, raised)"
      by (cases "modify_pixels_for_encoding (data (h ! r)) msg")
    obtain failed h2 where
      put: "put_pixels (length h) (width (h ! r)) 0 0 ys (h @ [h ! r]) = (failed, h2)"
      by (cases "put_pixels (length h) (width (h ! r)) 0 0 ys (h @ [h ! r])")
    from put have "take (length h) h2 = take (length h) (h @ [h ! r])"
      by (simp add: put_pixels_heap)
    then have "take (length h) h2 = h"
      by simp
    with False Inr gen put show ?thesis
      by (simp add: encode_def image_copy_def split: option.splits)
  qed
qed

text \<open>
  What \<open>encode\<close> changes. It leaves every object that was on the heap as it was, the
  opened image among them, whatever the outcome. When it succeeds, the encoded image has
  the width, the height and the number of pixels of the input, and every pixel keeps its
  number of channels. The pixels from position \<open>3 * length msg\<close> on are those of the
  input. Of each pixel before that, the first three channels are \<open>make_even\<close> or
  \<open>make_odd\<close> of the input pixel's, and every channel beyond the third is 255.
\<close>

theorem encode_frame:
  "take (length h) (snd (encode h r msg)) = h
   \<and> (r < length h \<and> wf_image (h ! r) \<and> channels3 (data (h ! r)) \<and> msg \<noteq> []
        \<and> 3 * length msg \<le> length (data (h ! r)) \<longrightarrow>
      (\<exists>out. encode h r msg = (Inr (length h), h @ [out])
         \<and> width out = width (h ! r) \<and> height out = height (h ! r)
         \<and> length (data out) = length (data (h ! r))
         \<and> (\<forall>k<length (data out).
               length (data out ! k) = length (data (h ! r) ! k)
               \<and> (if k < 3 * length msg
                    then lsb_adjusted (take 3 (data out ! k)) (data (h ! r) ! k)
                       \<and> drop 3 (data out ! k) =
                           replicate (length (data (h ! r) ! k) - 3) 255
                    else data out ! k = data (h ! r) ! k))))"
proof (intro conjI impI)
  show "take (length h) (snd (encode h r msg)) = h"
    by (rule encode_heap)
next
  let ?d = "data (h ! r)"
  let ?f = "\<lambda>p old. getink (length old) p"
  assume "r < length h \<and> wf_image (h ! r) \<and> channels3 ?d \<and> msg \<noteq> []
        \<and> 3 * length msg \<le> length ?d"
  then have a: "r < length h" "wf_image (h ! r)" "channels3 ?d" "msg \<noteq> []"
      "3 * length msg \<le> length ?d"
    by simp_all
  from a obtain ys where
    len: "length ys = 3 * length msg"
    and enc: "encode h r msg =
       (Inr (length h), h @ [(h ! r)\<lparr>data := map2 ?f ys ?d @ drop (length ys) ?d\<rparr>])"
    and adj: "list_all2 lsb_adjusted ys (take (3 * length msg) ?d)"
    by (rule encode_loop_result)
  let ?out = "(h ! r)\<lparr>data := map2 ?f ys ?d @ drop (length ys) ?d\<rparr>"
  have size: "length (data ?out) = length ?d"
    using len a(5) by simp
  have written: "length (data ?out ! k) = length (?d ! k)
      \<and> lsb_adjusted (take 3 (data ?out ! k)) (?d ! k)
      \<and> drop 3 (data ?out ! k) = replicate (length (?d ! k) - 3) 255"
    if "k < 3 * length msg" for k
  proof -
    from that len have k: "k < length ys"
      by simp
    from list_all2_nthD [OF adj, of k] that len have y: "lsb_adjusted (ys ! k) (?d ! k)"
      by simp
    then have three: "length (ys ! k) = 3"
      by (simp add: lsb_adjusted_def)
    from that a(3,5) have bands: "3 \<le> length (?d ! k)"
      by (simp add: channels3_nth)
    from k len a(5) three bands have
      "data ?out ! k = ys ! k @ replicate (length (?d ! k) - 3) 255"
      by (simp add: stored_nth)
    with y three bands show ?thesis
      by simp
  qed
  have kept: "data ?out ! k = ?d ! k" if "\<not> k < 3 * length msg" "k < length ?d" for k
    using that len by (simp add: nth_append)
  have every: "\<forall>k<length (data ?out).
      length (data ?out ! k) = length (?d ! k)
      \<and> (if k < 3 * length msg
           then lsb_adjusted (take 3 (data ?out ! k)) (?d ! k)
              \<and> drop 3 (data ?out ! k) = replicate (length (?d ! k) - 3) 255
           else data ?out ! k = ?d ! k)"
  proof (intro allI impI)
    fix k assume "k < length (data ?out)"
    with size have "k < length ?d"
      by simp
    with written [of k] kept [of k] show
      "length (data ?out ! k) = length (?d ! k)
       \<and> (if k < 3 * length msg
            then lsb_adjusted (take 3 (data ?out ! k)) (?d ! k)
               \<and> drop 3 (data ?out ! k) = replicate (length (?d ! k) - 3) 255
            else data ?out ! k = ?d ! k)"
      by (cases "k < 3 * length msg") simp_all
  qed
  show "\<exists>out. encode h r msg = (Inr (length h), h @ [out])
         \<and> width out = width (h ! r) \<and> height out = height (h ! r)
         \<and> length (data out) = length ?d
         \<and> (\<forall>k<length (data out).
               length (data out ! k) = length (?d ! k)
               \<and> (if k < 3 * length msg
                    then lsb_adjusted (take 3 (data out ! k)) (?d ! k)
                       \<and> drop 3 (data out ! k) = replicate (length (?d ! k) - 3) 255
                    else data out ! k = ?d ! k))"
  proof (intro exI [of _ ?out] conjI)
    show "encode h r msg = (Inr (length h), h @ [?out])"
      by (rule enc)
    show "width ?out = width (h ! r)" "height ?out = height (h ! r)"
      by simp_all
    show "length (data ?out) = length ?d"
      by (rule size)
    show "\<forall>k<length (data ?out).
      length (data ?out ! k) = length (?d ! k)
      \<and> (if k < 3 * length msg
           then lsb_adjusted (take 3 (data ?out ! k)) (?d ! k)
              \<and> drop 3 (data ?out ! k) = replicate (length (?d ! k) - 3) 255
           else data ?out ! k = ?d ! k)"
      by (rule every)
  qed
qed

lemma format_08b_65: "format_08b 65 = ''01000001''"
  by (simp add: format_08b_def bin_digits.simps digit_char_def)

text \<open>
  Claim C4 asks that \<open>encode\<close> keep the channels beyond the first three of the pixels it
  writes. The code does not: the generator takes the first three channels of a pixel
  and yields three values, and \<^verbatim>\<open>putpixel\<close> fills the fourth band with 255. Encoding
  \<open>"A"\<close> into three pixels whose fourth channel is 40 returns pixels whose fourth
  channel is 255. The input image is untouched and the first three channels are as the
  claim says.
\<close>

theorem encode_resets_alpha:
  "encode [\<lparr>width = 3, height = 1,
             data = [[10, 20, 30, 40], [40, 50, 60, 40], [70, 80, 90, 40]]\<rparr>] 0 [65] =
     (Inr 1,
      [\<lparr>width = 3, height = 1, data = [[10, 20, 30, 40], [40, 50, 60, 40], [70, 80, 90, 40]]\<rparr>,
       \<lparr>width = 3, height = 1,
          data = [[10, 21, 30, 255], [40, 50, 60, 255], [70, 81, 91, 255]]\<rparr>])"
  by (simp add: encode_def validate_image_capacity_def image_copy_def
      modify_pixels_for_encoding_def text_to_binary_def format_08b_65 encode_group_def
      BITS_PER_CHAR_def upt_8 set_termination_flag_def encode_bit_in_value_def
      make_even_def make_odd_def putpixel_def getink_def Let_def)

subsection \<open>\<^verbatim>\<open>decode\<close> on arbitrary images\<close>

lemma decode_loop_short:
  "length ps < 3 \<Longrightarrow> decode_loop ps acc = Inl (SteganographyError UnexpectedEndOfImageData)"
  by (cases ps; cases "tl ps"; cases "tl (tl ps)") auto

lemma decode_loop_truncated:
  assumes "channels3 ps" "\<forall>g<length ps div 3. ps ! (3 * g + 2) ! 2 mod 2 = 0"
  shows "decode_loop ps acc = Inl (SteganographyError UnexpectedEndOfImageData)"
  using assms
proof (induction ps arbitrary: acc rule: triples_induct)
  case (Three p1 p2 p3 ps)
  from Three.prems(1) have l: "3 \<le> length p1" "3 \<le> length p2" "3 \<le> length p3"
    and c3: "channels3 ps"
    by simp_all
  from Three.prems(2) [rule_format, of 0] have flag: "p3 ! 2 mod 2 = 0"
    by simp
  have "ps ! (3 * g + 2) ! 2 mod 2 = 0" if "g < length ps div 3" for g
  proof -
    have "3 * Suc g + 2 = 3 + (3 * g + 2)"
      by simp
    with Three.prems(2) [rule_format, of "Suc g"] that show ?thesis
      by (simp add: nth_3_plus del: nth_Cons_Suc)
  qed
  with c3 have "decode_loop ps (acc @ [group_char p1 p2 p3]) =
      Inl (SteganographyError UnexpectedEndOfImageData)"
    by (intro Three.IH) simp_all
  with l flag show ?case
    by (simp add: decode_loop_group del: decode_loop.simps)
qed simp_all

text \<open>
  Claim C6. \<open>decode\<close> raises the error of an unexpected end of the image data, and returns
  no text, on every image of fewer than 3 pixels (the empty one included), and on every
  image of pixels with at least 3 channels in which the 9th value of each complete group
  is even, so that the pixels run out before an odd flag is read.
\<close>

theorem decode_truncated:
  "(length (data img) < 3 \<longrightarrow>
      decode img = Inl (SteganographyError UnexpectedEndOfImageData))
   \<and> (channels3 (data img)
        \<and> (\<forall>g<length (data img) div 3. data img ! (3 * g + 2) ! 2 mod 2 = 0) \<longrightarrow>
      decode img = Inl (SteganographyError UnexpectedEndOfImageData))"
  by (simp add: decode_def decode_loop_short decode_loop_truncated)

theorem decode_truncated_witness:
  "length (data \<lparr>width = 2, height = 1, data = [[1, 1, 1], [1, 1, 1]]\<rparr>) < 3
   \<and> decode \<lparr>width = 2, height = 1, data = [[1, 1, 1], [1, 1, 1]]\<rparr> =
       Inl (SteganographyError UnexpectedEndOfImageData)
   \<and> channels3 [[10, 21, 30], [40, 50, 60], [70, 81, 90], [1, 1, 1]]
   \<and> [[10, 21, 30], [40, 50, 60], [70, 81, 90], [1, 1, 1]] ! (3 * 0 + 2) ! 2 mod 2 = (0::int)
   \<and> decode \<lparr>width = 4, height = 1,
                data = [[10, 21, 30], [40, 50, 60], [70, 81, 90], [1, 1, 1]]\<rparr> =
       Inl (SteganographyError UnexpectedEndOfImageData)"
  using decode_truncated [of "\<lparr>width = 2, height = 1, data = [[1, 1, 1], [1, 1, 1]]\<rparr>"]
    decode_truncated
      [of "\<lparr>width = 4, height = 1,
             data = [[10, 21, 30], [40, 50, 60], [70, 81, 90], [1, 1, 1]]\<rparr>"]
  by simp

lemma decode_loop_stops:
  assumes "3 * Suc k \<le> length ps" "channels3 (take (3 * Suc k) ps)"
    "\<forall>g<k. ps ! (3 * g + 2) ! 2 mod 2 = 0" "ps ! (3 * k + 2) ! 2 mod 2 \<noteq> 0"
  shows "decode_loop ps acc =
    Inr (acc @ map (\<lambda>g. group_char (ps ! (3 * g)) (ps ! (3 * g + 1)) (ps ! (3 * g + 2)))
                 [0..<Suc k])"
  using assms
proof (induction k arbitrary: ps acc)
  case 0
  then have "3 \<le> length ps"
    by simp
  then obtain p1 p2 p3 rest where ps: "ps = p1 # p2 # p3 # rest"
    by (rule three_pixels)
  with 0(2) have l: "3 \<le> length p1" "3 \<le> length p2" "3 \<le> length p3"
    by (simp_all add: numeral_3_eq_3)
  from 0(4) ps have "p3 ! 2 mod 2 \<noteq> 0"
    by simp
  with l show ?case
    unfolding ps by (simp add: decode_loop_group del: decode_loop.simps)
next
  case (Suc k)
  let ?c = "\<lambda>qs g. group_char (qs ! (3 * g)) (qs ! (3 * g + 1)) (qs ! (3 * g + 2))"
  from Suc.prems(1) have "3 \<le> length ps"
    by simp
  then obtain p1 p2 p3 rest where ps: "ps = p1 # p2 # p3 # rest"
    by (rule three_pixels)
  have split: "3 * Suc (Suc k) = 3 + 3 * Suc k"
    by simp
  from Suc.prems(2) have l: "3 \<le> length p1" "3 \<le> length p2" "3 \<le> length p3"
    and c3: "channels3 (take (3 * Suc k) rest)"
    unfolding ps split take_3_plus by simp_all
  from Suc.prems(3) [rule_format, of 0] ps have flag: "p3 ! 2 mod 2 = 0"
    by simp
  have shift: "ps ! (3 * Suc g + j) = rest ! (3 * g + j)" for g j
  proof -
    have "3 * Suc g + j = 3 + (3 * g + j)"
      by simp
    then show ?thesis
      unfolding ps by (simp only: nth_3_plus)
  qed
  have even: "\<forall>g<k. rest ! (3 * g + 2) ! 2 mod 2 = 0"
  proof (intro allI impI)
    fix g assume "g < k"
    then have "Suc g < Suc k"
      by simp
    then have "ps ! (3 * Suc g + 2) ! 2 mod 2 = 0"
      by (rule Suc.prems(3) [rule_format])
    then show "rest ! (3 * g + 2) ! 2 mod 2 = 0"
      by (simp only: shift)
  qed
  from Suc.prems(4) have odd: "rest ! (3 * k + 2) ! 2 mod 2 \<noteq> 0"
    unfolding shift .
  from Suc.prems(1) ps have "3 * Suc k \<le> length rest"
    by simp
  from Suc.IH [OF this c3 even odd, of "acc @ [group_char p1 p2 p3]"]
  have "decode_loop rest (acc @ [group_char p1 p2 p3]) =
      Inr ((acc @ [group_char p1 p2 p3]) @ map (?c rest) [0..<Suc k])" .
  moreover have "map (?c ps) [0..<Suc (Suc k)] = group_char p1 p2 p3 # map (?c rest) [0..<Suc k]"
  proof -
    have "[0..<Suc (Suc k)] = 0 # map Suc [0..<Suc k]"
      by (simp only: upt_conv_Cons [of 0 "Suc (Suc k)"] map_Suc_upt)
    moreover have "?c ps 0 = group_char p1 p2 p3"
      unfolding ps by simp
    moreover have "?c ps (Suc g) = ?c rest g" for g
      using shift [of g 0] shift [of g 1] shift [of g 2] by simp
    ultimately show ?thesis
      by (simp add: comp_def del: upt_Suc)
  qed
  ultimately show ?case
    using l flag unfolding ps [symmetric]
    by (simp add: ps decode_loop_group del: decode_loop.simps upt_Suc)
qed

text \<open>
  Claim C8. If group \<open>k\<close> is the first group of an image whose 9th value is odd, and the
  pixels up to that group have at least 3 channels, \<open>decode\<close> returns the characters of
  the groups \<open>0\<close> to \<open>k\<close>, each read from the least significant bits of the group's first
  eight values, most significant bit first; the pixels after group \<open>k\<close> are not looked
  at. In particular, when the least significant bits of the first group are
  \<open>0,1,0,0,0,0,0,1,1\<close>, \<open>decode\<close> returns \<open>"A"\<close> (code point 65) whatever follows.
\<close>

theorem decode_stops:
  "(3 * Suc k \<le> length (data img) \<and> channels3 (take (3 * Suc k) (data img))
      \<and> (\<forall>g<k. data img ! (3 * g + 2) ! 2 mod 2 = 0)
      \<and> data img ! (3 * k + 2) ! 2 mod 2 \<noteq> 0 \<longrightarrow>
    decode img =
      Inr (map (\<lambda>g. group_char (data img ! (3 * g)) (data img ! (3 * g + 1))
                      (data img ! (3 * g + 2))) [0..<Suc k]))
   \<and> (3 \<le> length p1 \<and> 3 \<le> length p2 \<and> 3 \<le> length p3
      \<and> map lsb (take 3 p1 @ take 3 p2 @ take 3 p3) = [0, 1, 0, 0, 0, 0, 0, 1, 1] \<longrightarrow>
    decode \<lparr>width = w, height = hh, data = p1 # p2 # p3 # rest\<rparr> = Inr [65])"
proof (intro conjI impI)
  assume "3 * Suc k \<le> length (data img) \<and> channels3 (take (3 * Suc k) (data img))
      \<and> (\<forall>g<k. data img ! (3 * g + 2) ! 2 mod 2 = 0)
      \<and> data img ! (3 * k + 2) ! 2 mod 2 \<noteq> 0"
  then show "decode img =
      Inr (map (\<lambda>g. group_char (data img ! (3 * g)) (data img ! (3 * g + 1))
                      (data img ! (3 * g + 2))) [0..<Suc k])"
    using decode_loop_stops [of k "data img" "[]"] by (simp add: decode_def)
next
  assume a: "3 \<le> length p1 \<and> 3 \<le> length p2 \<and> 3 \<le> length p3
      \<and> map lsb (take 3 p1 @ take 3 p2 @ take 3 p3) = [0, 1, 0, 0, 0, 0, 0, 1, 1]"
  then have l: "3 \<le> length p1" "3 \<le> length p2" "3 \<le> length p3"
    by simp_all
  with a have bits: "lsb (p1 ! 0) = 0" "lsb (p1 ! 1) = 1" "lsb (p1 ! 2) = 0"
    "lsb (p2 ! 0) = 0" "lsb (p2 ! 1) = 0" "lsb (p2 ! 2) = 0"
    "lsb (p3 ! 0) = 0" "lsb (p3 ! 1) = 1" "lsb (p3 ! 2) = 1"
    by (simp_all add: take_3)
  then have "group_char p1 p2 p3 = 65"
    by (simp add: group_char_def msb_first_def)
  moreover from bits(9) have "p3 ! 2 mod 2 \<noteq> 0"
    by (simp add: lsb_def)
  ultimately show "decode \<lparr>width = w, height = hh, data = p1 # p2 # p3 # rest\<rparr> = Inr [65]"
    using l by (simp add: decode_def decode_loop_group del: decode_loop.simps)
qed

theorem decode_stops_witness:
  "channels3 (take (3 * Suc 1) [[10, 21, 30], [40, 51, 60], [70, 80, 90],
                                [0, 1, 1], [2, 3, 2], [254, 255, 255], [7]])
   \<and> decode \<lparr>width = 7, height = 1,
        data = [[10, 21, 30], [40, 51, 60], [70, 80, 90],
                [0, 1, 1], [2, 3, 2], [254, 255, 255], [7]]\<rparr> = Inr [72, 105]
   \<and> map lsb (take 3 [10, 21, 30] @ take 3 [40, 50, 60] @ take 3 [70, 81, 91]) =
       [0, 1, 0, 0, 0, 0, 0, 1, 1]
   \<and> decode \<lparr>width = 2, height = 2, data = [[10, 21, 30], [40, 50, 60], [70, 81, 91], [5]]\<rparr> =
       Inr [65]"
proof -
  let ?img = "\<lparr>width = 7, height = 1,
        data = [[10, 21, 30], [40, 51, 60], [70, 80, 90],
                [0, 1, 1], [2, 3, 2], [254, 255, 255], [7::int]]\<rparr>"
  have c3: "channels3 (take (3 * Suc 1) (data ?img))"
    by (simp add: numeral_3_eq_3)
  have idx: "3 * 0 + 2 = (2::nat)" "3 * 1 + 2 = (5::nat)" "3 * Suc 1 = (6::nat)"
    by simp_all
  have flags: "\<forall>g<1. data ?img ! (3 * g + 2) ! 2 mod 2 = 0"
    "data ?img ! (3 * 1 + 2) ! 2 mod 2 \<noteq> 0"
    by simp_all
  have "3 * Suc 1 \<le> length (data ?img)"
    by simp
  with c3 flags decode_stops [THEN conjunct1, THEN mp, of 1 ?img]
  have "decode ?img =
      Inr (map (\<lambda>g. group_char (data ?img ! (3 * g)) (data ?img ! (3 * g + 1))
                      (data ?img ! (3 * g + 2))) [0..<Suc 1])"
    by blast
  also have "\<dots> = Inr [72, 105]"
    by (simp add: group_char_def msb_first_def lsb_def upt_rec)
  finally have first: "decode ?img = Inr [72, 105]" .
  have bits: "map lsb (take 3 [10, 21, 30] @ take 3 [40, 50, 60] @ take 3 [70, 81, 91]) =
       [0, 1, 0, 0, 0, 0, 0, 1, 1]"
    by (simp add: lsb_def)
  with decode_stops [THEN conjunct2, THEN mp, of "[10, 21, 30]" "[40, 50, 60]" "[70, 81, 91]"
      2 2 "[[5]]"]
  have "decode \<lparr>width = 2, height = 2, data = [[10, 21, 30], [40, 50, 60], [70, 81, 91], [5]]\<rparr> =
       Inr [65]"
    by simp
  with c3 first bits show ?thesis
    by simp
qed

lemma binary_string_of_cases:
  "binary_string_of cv = Inl IndexError \<or>
   (\<exists>s n. binary_string_of cv = Inr s \<and> length s = 8 \<and> set s \<subseteq> {CHR ''0'', CHR ''1''}
      \<and> int_base2 s = Some n \<and> n \<le> 255 \<and> chr n = Some n)"
proof (cases "BITS_PER_CHAR \<le> length cv")
  case False
  then show ?thesis
    by (simp add: binary_string_of_def)
next
  case True
  let ?vs = "map ((!) cv) [0..<8]"
  let ?s = "map extract_bit_from_value ?vs"
  let ?n = "foldl (\<lambda>a b. 2 * a + b) 0 (map lsb ?vs)"
  from True have s: "binary_string_of cv = Inr ?s"
    by (simp add: binary_string_of_def BITS_PER_CHAR_def comp_def)
  have "length ?s = 8"
    by simp
  moreover have "set ?s \<subseteq> {CHR ''0'', CHR ''1''}"
    by (auto simp: extract_bit_from_value_def)
  moreover have n: "int_base2 ?s = Some ?n"
    unfolding int_base2_def by (simp only: int_base2_digits_extract) (simp add: upt_8)
  moreover have "?n \<le> 255"
    using lsb_le_1 [of "cv ! 0"] lsb_le_1 [of "cv ! 1"] lsb_le_1 [of "cv ! 2"]
      lsb_le_1 [of "cv ! 3"] lsb_le_1 [of "cv ! 4"] lsb_le_1 [of "cv ! 5"]
      lsb_le_1 [of "cv ! 6"] lsb_le_1 [of "cv ! 7"]
    by (simp add: upt_8)
  moreover from this have "chr ?n = Some ?n"
    by (simp add: chr_def)
  ultimately show ?thesis
    using s by blast
qed

lemma decode_loop_never_invalid:
  "decode_loop ps acc \<noteq> Inl (SteganographyError InvalidEncodedData)"
proof (induction ps arbitrary: acc rule: triples_induct)
  case (Three p1 p2 p3 ps)
  let ?cv = "take 3 p1 @ take 3 p2 @ take 3 p3"
  from binary_string_of_cases [of ?cv] show ?case
  proof (elim disjE exE conjE)
    assume "binary_string_of ?cv = Inl IndexError"
    then show ?thesis
      by simp
  next
    fix s n
    assume "binary_string_of ?cv = Inr s" "int_base2 s = Some n" "chr n = Some n"
    then show ?thesis
      using Three.IH [of "acc @ [n]"] by simp
  qed
qed simp_all

text \<open>
  Claim C10. \<open>decode\<close> never raises the error of invalid encoded data: the string
  joined from the bits of a group has exactly 8 characters, each \<open>0\<close> or \<open>1\<close>, so
  \<open>int_base2\<close> parses it to a number of at most 255 and \<open>chr\<close> accepts that number. The
  \<^verbatim>\<open>except ValueError\<close> clause is never entered.
\<close>

theorem decode_never_invalid:
  "decode img \<noteq> Inl (SteganographyError InvalidEncodedData)
   \<and> (\<forall>s. binary_string_of color_values = Inr s \<longrightarrow>
         length s = 8 \<and> set s \<subseteq> {CHR ''0'', CHR ''1''}
         \<and> (\<exists>n. int_base2 s = Some n \<and> n \<le> 255 \<and> chr n = Some n))"
  using binary_string_of_cases [of color_values]
  by (auto simp: decode_def decode_loop_never_invalid)

theorem decode_never_invalid_witness:
  "binary_string_of [10, 21, 30, 40, 50, 60, 70, 81, 91] = Inr ''01000001''
   \<and> length ''01000001'' = 8
   \<and> int_base2 ''01000001'' = Some 65 \<and> chr 65 = Some 65
   \<and> decode \<lparr>width = 1, height = 3, data = [[0, 0, 2], [0, 0, 2], [0, 0, 2]]\<rparr> \<noteq>
       Inl (SteganographyError InvalidEncodedData)"
proof -
  have s: "binary_string_of [10, 21, 30, 40, 50, 60, 70, 81, 91] = Inr ''01000001''"
    by (simp add: binary_string_of_def BITS_PER_CHAR_def upt_8 extract_bit_from_value_def)
  with decode_never_invalid
    [of "\<lparr>width = 1, height = 3, data = [[0, 0, 2], [0, 0, 2], [0, 0, 2]]\<rparr>"
      "[10, 21, 30, 40, 50, 60, 70, 81, 91]"]
  have "decode \<lparr>width = 1, height = 3, data = [[0, 0, 2], [0, 0, 2], [0, 0, 2]]\<rparr> \<noteq>
       Inl (SteganographyError InvalidEncodedData)"
    and "\<exists>n. int_base2 ''01000001'' = Some n \<and> n \<le> 255 \<and> chr n = Some n"
    by blast+
  moreover have "int_base2 ''01000001'' = Some 65"
    by (simp add: int_base2_def)
  ultimately show ?thesis
    using s by (auto simp: chr_def)
qed

subsection \<open>Texts outside the contract\<close>

text \<open>
  Claim C9. On the empty text \<open>encode\<close> raises the error of an empty text, for every
  heap and image, whatever the number of pixels; the test comes first, before the
  capacity check and the copy, and the heap is returned as it was.
\<close>

theorem encode_empty_text:
  "encode h r [] = (Inl (SteganographyError CannotEncodeEmptyText), h)"
  by (simp add: encode_def)

lemma format_08b_9786: "format_08b 9786 = ''10011000111010''"
  by (simp add: format_08b_def bin_digits.simps digit_char_def)

text \<open>
  Claim C2 asks that a character of a code point above 255 be refused. The code has no
  such test: \<open>text_to_binary\<close> gives the code point 9786 a string of 14 binary digits,
  the loop over \<open>BITS_PER_CHAR\<close> writes the first 8 of them, \<open>encode\<close> succeeds, and
  \<open>decode\<close> of the result returns the character 152 instead.
\<close>

theorem encode_wide_character:
  "text_to_binary [9786] = [''10011000111010'']
   \<and> encode [\<lparr>width = 3, height = 1, data = [[10, 20, 30], [40, 50, 60], [70, 80, 90]]\<rparr>]
        0 [9786] =
       (Inr 1,
        [\<lparr>width = 3, height = 1, data = [[10, 20, 30], [40, 50, 60], [70, 80, 90]]\<rparr>,
         \<lparr>width = 3, height = 1, data = [[11, 20, 30], [41, 51, 60], [70, 80, 91]]\<rparr>])
   \<and> decode \<lparr>width = 3, height = 1, data = [[11, 20, 30], [41, 51, 60], [70, 80, 91]]\<rparr> =
       Inr [152]"
proof (intro conjI)
  show "text_to_binary [9786] = [''10011000111010'']"
    by (simp add: text_to_binary_def format_08b_9786)
  show "encode [\<lparr>width = 3, height = 1, data = [[10, 20, 30], [40, 50, 60], [70, 80, 90]]\<rparr>]
        0 [9786] =
       (Inr 1,
        [\<lparr>width = 3, height = 1, data = [[10, 20, 30], [40, 50, 60], [70, 80, 90]]\<rparr>,
         \<lparr>width = 3, height = 1, data = [[11, 20, 30], [41, 51, 60], [70, 80, 91]]\<rparr>])"
    by (simp add: encode_def validate_image_capacity_def image_copy_def
        modify_pixels_for_encoding_def text_to_binary_def format_08b_9786 encode_group_def
        BITS_PER_CHAR_def upt_8 set_termination_flag_def encode_bit_in_value_def
        make_even_def make_odd_def putpixel_def getink_def Let_def)
  show "decode \<lparr>width = 3, height = 1, data = [[11, 20, 30], [41, 51, 60], [70, 80, 91]]\<rparr> =
       Inr [152]"
    by (simp add: decode_def binary_string_of_def BITS_PER_CHAR_def upt_8 int_base2_def
        chr_def extract_bit_from_value_def Let_def)
qed

end
